theory Spec2Isabelle
  imports Complex_Main "HOL-Library.Word"
begin

section \<open>Mnemonist DynamicArray (src/dynamic-array.js)\<close>

text \<open>
  A shallow embedding of the growing array of \<^verbatim>\<open>src/dynamic-array.js\<close>.
  JavaScript numbers that hold sizes and indices are natural numbers here, and a growing
  policy is a function from natural numbers to natural numbers; the object
  \<^verbatim>\<open>this\<close> is a record that every method takes and returns; a thrown
  \<^verbatim>\<open>Error\<close> is a value, returned together with the state the object is left in
  (an exception does not undo the assignments made before it); the \<^verbatim>\<open>while\<close>
  loop of \<^verbatim>\<open>set\<close> may run forever and is a partial function whose value
  \<open>None\<close> is "does not return".
\<close>

subsection \<open>The array constructor: typed arrays\<close>

text \<open>
  \<^verbatim>\<open>ArrayClass\<close> is one of the typed array constructors the module is exported with
  (\<^verbatim>\<open>Int8Array\<close> ... \<^verbatim>\<open>Float64Array\<close>). A typed array has a fixed number of
  slots of the element type \<open>'a\<close>; \<^verbatim>\<open>new ArrayClass(n)\<close> has \<open>n\<close> slots holding zero;
  reading a slot that does not exist gives \<^verbatim>\<open>undefined\<close> (\<open>None\<close>); writing to a slot
  that does not exist does nothing; storing \<^verbatim>\<open>undefined\<close> stores the element that
  \<^verbatim>\<open>undefined\<close> converts to (zero for the integer arrays, NaN for the float arrays).
  Values passed to \<^verbatim>\<open>set\<close> and \<^verbatim>\<open>push\<close> are elements of type \<open>'a\<close>.
\<close>

record 'a array_class =
  zero_elem :: 'a
  of_undefined :: 'a

definition new_array :: "'a array_class \<Rightarrow> nat \<Rightarrow> 'a list" where
  "new_array AC n = replicate n (zero_elem AC)"

definition array_read :: "'a list \<Rightarrow> nat \<Rightarrow> 'a option" where
  "array_read a i = (if i < List.length a then Some (a ! i) else None)"

definition array_write :: "'a array_class \<Rightarrow> 'a list \<Rightarrow> nat \<Rightarrow> 'a option \<Rightarrow> 'a list" where
  "array_write AC a i v =
     (if i < List.length a
      then a[i := (case v of Some x \<Rightarrow> x | None \<Rightarrow> of_undefined AC)]
      else a)"

definition Uint8Array :: "8 word array_class" where
  "Uint8Array = \<lparr>zero_elem = 0, of_undefined = 0\<rparr>"

subsection \<open>Constants\<close>

text \<open>
  \<^verbatim>\<open>DEFAULT_GROWING_POLICY\<close> (lines 19-21): \<^verbatim>\<open>Math.ceil(currentSize * 1.5)\<close>. The
  product is exact in double precision for every size an array can have, so the number
  is the ceiling of the real product.
\<close>

definition DEFAULT_GROWING_POLICY :: "nat \<Rightarrow> nat" where
  "DEFAULT_GROWING_POLICY currentSize = nat \<lceil>real currentSize * 1.5\<rceil>"

subsection \<open>The object\<close>

text \<open>
  The fields of \<^verbatim>\<open>this\<close> (lines 42-46). \<open>length'\<close> is the field \<^verbatim>\<open>length\<close>.
  \<open>allocations\<close> is a ghost field, not part of the JavaScript object: it counts the
  evaluations of \<^verbatim>\<open>new ArrayClass(...)\<close>, so that "no reallocation" can be stated.
\<close>

record 'a dynamic_array =
  ArrayClass :: "'a array_class"
  length' :: nat
  capacity :: nat
  policy :: "nat \<Rightarrow> nat"
  array :: "'a list"
  allocations :: nat

datatype error = Error string

definition set_error :: error where
  "set_error =
     Error ''mnemonist/dynamic-array.set: policy returned a less or equal length to allocate.''"

definition grow_error :: error where
  "grow_error =
     Error ''mnemonist/dynamic-array.grow: policy returned a less or equal length to allocate.''"

text \<open>
  The constructor (lines 30-47). Its second argument is a number or an options object
  whose fields \<^verbatim>\<open>initialCapacity\<close> and \<^verbatim>\<open>policy\<close> may be missing; a missing or zero
  capacity is \<open>0\<close> (\<^verbatim>\<open>|| 0\<close>) and a missing policy is the default one. The check of
  \<^verbatim>\<open>arguments.length\<close> is the presence of both arguments.
\<close>

datatype initial = InitialCapacity nat | Options "nat option" "(nat \<Rightarrow> nat) option"

fun DynamicArray :: "'a array_class \<Rightarrow> initial \<Rightarrow> 'a dynamic_array" where
  "DynamicArray AC (InitialCapacity initialCapacity) =
     \<lparr>ArrayClass = AC, length' = 0, capacity = initialCapacity,
      policy = DEFAULT_GROWING_POLICY,
      array = new_array AC initialCapacity, allocations = 1\<rparr>"
| "DynamicArray AC (Options c p) =
     (let initialCapacity = (case c of Some n \<Rightarrow> n | None \<Rightarrow> 0);
          policy' = (case p of Some f \<Rightarrow> f | None \<Rightarrow> DEFAULT_GROWING_POLICY)
      in \<lparr>ArrayClass = AC, length' = 0, capacity = initialCapacity,
          policy = policy',
          array = new_array AC initialCapacity, allocations = 1\<rparr>)"

subsection \<open>Transferring\<close>

text \<open>
  Lines 70-75 of \<^verbatim>\<open>set\<close> and 117-121 of \<^verbatim>\<open>grow\<close> are the same statements: a new
  array of \<^verbatim>\<open>this.capacity\<close> slots, then a \<^verbatim>\<open>for\<close> loop over \<open>i = 0 ..< this.length\<close>
  doing \<^verbatim>\<open>this.array[i] = oldArray[i]\<close>.
\<close>

definition transfer :: "'a dynamic_array \<Rightarrow> 'a dynamic_array" where
  "transfer s =
     (let oldArray = array s;
          AC = ArrayClass s;
          newArray = new_array AC (capacity s)
      in s\<lparr>array := fold (\<lambda>i a. array_write AC a i (array_read oldArray i)) [0..<length' s] newArray,
           allocations := allocations s + 1\<rparr>)"

subsection \<open>set\<close>

text \<open>
  The \<^verbatim>\<open>while\<close> loop of lines 62-68. \<open>capacity0\<close> is the local variable
  \<^verbatim>\<open>capacity\<close>, read once before the loop (line 59); the loop assigns
  \<^verbatim>\<open>this.capacity\<close> and then compares it with that local.
\<close>

partial_function (option) set_loop ::
  "nat \<Rightarrow> nat \<Rightarrow> 'a dynamic_array \<Rightarrow> (error option \<times> 'a dynamic_array) option" where
  "set_loop capacity0 index s =
     (if index \<ge> capacity s
      then (let s' = s\<lparr>capacity := policy s (capacity s)\<rparr>
            in if capacity s' \<le> capacity0 then Some (Some set_error, s')
               else set_loop capacity0 index s')
      else Some (None, s))"

declare set_loop.simps [code]

text \<open>Lines 78-87: the write, the update of the length, \<^verbatim>\<open>return this\<close>.\<close>

definition set_write :: "nat \<Rightarrow> 'a \<Rightarrow> 'a dynamic_array \<Rightarrow> 'a dynamic_array" where
  "set_write index v s =
     (let s1 = s\<lparr>array := array_write (ArrayClass s) (array s) index (Some v)\<rparr>;
          index' = index + 1
      in if index' > length' s1 then s1\<lparr>length' := index'\<rparr> else s1)"

text \<open>
  \<^verbatim>\<open>set\<close> (lines 56-88). The result is \<open>None\<close> when the call does not return,
  \<open>Some (Inl e, s')\<close> when it throws \<open>e\<close> and leaves the object as \<open>s'\<close>, and
  \<open>Some (Inr (), s')\<close> when it returns \<^verbatim>\<open>this\<close>, the object then being \<open>s'\<close>.
\<close>

definition set' ::
  "nat \<Rightarrow> 'a \<Rightarrow> 'a dynamic_array \<Rightarrow> ((error + unit) \<times> 'a dynamic_array) option" where
  "set' index v s =
     (let capacity0 = capacity s
      in if index \<ge> capacity0
         then (case set_loop capacity0 index s of
                 None \<Rightarrow> None
               | Some (Some e, s1) \<Rightarrow> Some (Inl e, s1)
               | Some (None, s1) \<Rightarrow> Some (Inr (), set_write index v (transfer s1)))
         else Some (Inr (), set_write index v s))"

subsection \<open>get, grow, push, pop\<close>

text \<open>\<^verbatim>\<open>get\<close> (lines 96-101); \<open>None\<close> is \<^verbatim>\<open>undefined\<close>.\<close>

definition get :: "nat \<Rightarrow> 'a dynamic_array \<Rightarrow> 'a option" where
  "get index s = (if length' s < index then None else array_read (array s) index)"

text \<open>\<^verbatim>\<open>grow\<close> (lines 108-124): the assignment of line 111 comes before the check.\<close>

definition grow :: "'a dynamic_array \<Rightarrow> (error + unit) \<times> 'a dynamic_array" where
  "grow s =
     (let capacity0 = capacity s;
          s1 = s\<lparr>capacity := policy s capacity0\<rparr>
      in if capacity s1 \<le> capacity0 then (Inl grow_error, s1)
         else (Inr (), transfer s1))"

text \<open>\<^verbatim>\<open>push\<close> (lines 132-139) returns the new length; an error of \<^verbatim>\<open>grow\<close> propagates.\<close>

definition push :: "'a \<Rightarrow> 'a dynamic_array \<Rightarrow> (error + nat) \<times> 'a dynamic_array" where
  "push v s =
     (case (if length' s \<ge> capacity s then grow s else (Inr (), s)) of
        (Inl e, s1) \<Rightarrow> (Inl e, s1)
      | (Inr _, s1) \<Rightarrow>
          (let s2 = s1\<lparr>array := array_write (ArrayClass s1) (array s1) (length' s1) (Some v),
                       length' := length' s1 + 1\<rparr>
           in (Inr (length' s2), s2)))"

text \<open>\<^verbatim>\<open>pop\<close> (lines 146-151); \<open>None\<close> is \<^verbatim>\<open>undefined\<close>.\<close>

definition pop :: "'a dynamic_array \<Rightarrow> 'a option \<times> 'a dynamic_array" where
  "pop s =
     (if length' s = 0 then (None, s)
      else (let s1 = s\<lparr>length' := length' s - 1\<rparr>
            in (array_read (array s1) (length' s1), s1)))"

subsection \<open>Sequences of calls\<close>

text \<open>
  A caller's sequence of method calls. A call that throws leaves the object as it is at
  the \<^verbatim>\<open>throw\<close>; a caller that catches the error goes on with that object. \<open>step\<close>
  gives the error thrown (if any) and the object after the call, \<open>run\<close> the errors of a
  whole sequence and the object after it; both are \<open>None\<close> when a call does not return.
\<close>

datatype 'a operation = Get nat | Set nat 'a | Push 'a | Pop | Grow

fun thrown :: "error + 'r \<Rightarrow> error option" where
  "thrown (Inl e) = Some e"
| "thrown (Inr _) = None"

fun step :: "'a operation \<Rightarrow> 'a dynamic_array \<Rightarrow> (error option \<times> 'a dynamic_array) option" where
  "step (Get index) s = Some (None, s)"
| "step (Set index v) s =
     (case set' index v s of None \<Rightarrow> None | Some (r, s') \<Rightarrow> Some (thrown r, s'))"
| "step (Push v) s = (case push v s of (r, s') \<Rightarrow> Some (thrown r, s'))"
| "step Pop s = Some (None, snd (pop s))"
| "step Grow s = (case grow s of (r, s') \<Rightarrow> Some (thrown r, s'))"

fun run ::
  "'a operation list \<Rightarrow> 'a dynamic_array \<Rightarrow> (error option list \<times> 'a dynamic_array) option" where
  "run [] s = Some ([], s)"
| "run (x # xs) s =
     (case step x s of
        None \<Rightarrow> None
      | Some (e, s1) \<Rightarrow>
          (case run xs s1 of None \<Rightarrow> None | Some (es, s2) \<Rightarrow> Some (e # es, s2)))"

text \<open>
  Pushing the values of a list one after the other; the first error ends the sequence,
  otherwise the result is the list of the numbers the calls returned.
\<close>

fun pushes :: "'a list \<Rightarrow> 'a dynamic_array \<Rightarrow> (error + nat list) \<times> 'a dynamic_array" where
  "pushes [] s = (Inr [], s)"
| "pushes (v # vs) s =
     (case push v s of
        (Inl e, s1) \<Rightarrow> (Inl e, s1)
      | (Inr n, s1) \<Rightarrow>
          (case pushes vs s1 of
             (Inl e, s2) \<Rightarrow> (Inl e, s2)
           | (Inr ns, s2) \<Rightarrow> (Inr (n # ns), s2)))"

subsection \<open>The invariant of the data model\<close>

text \<open>
  The length is at most the capacity, and the capacity is the number of slots of the
  array the object holds.
\<close>

definition invariant :: "'a dynamic_array \<Rightarrow> bool" where
  "invariant s \<longleftrightarrow> length' s \<le> capacity s \<and> capacity s = List.length (array s)"

subsection \<open>Growing policies used as examples\<close>

text \<open>A policy that adds one slot up to a maximum of three and stays there.\<close>

definition stalling_policy :: "nat \<Rightarrow> nat" where
  "stalling_policy c = min (c + 1) 3"

text \<open>A policy that halves the capacity, \<^verbatim>\<open>Math.floor(c / 2)\<close>.\<close>

definition halving_policy :: "nat \<Rightarrow> nat" where
  "halving_policy c = c div 2"

subsection \<open>Buffers used as examples\<close>

text \<open>
  \<^verbatim>\<open>var b = new DynamicUint8Array(1); b.push(7); b.pop();\<close>: the buffer is empty again
  and slot 0 of its array still holds 7.
\<close>

definition popped_example :: "8 word dynamic_array" where
  "popped_example = snd (pop (snd (push 7 (DynamicArray Uint8Array (InitialCapacity 1)))))"

text \<open>\<^verbatim>\<open>new DynamicUint8Array({initialCapacity: 2, policy: halving})\<close>.\<close>

definition halving_example :: "8 word dynamic_array" where
  "halving_example = DynamicArray Uint8Array (Options (Some 2) (Some halving_policy))"

text \<open>\<^verbatim>\<open>new DynamicUint8Array(2)\<close>, and \<^verbatim>\<open>new DynamicUint8Array(1)\<close> after \<^verbatim>\<open>push(7)\<close>.\<close>

definition fresh_example :: "8 word dynamic_array" where
  "fresh_example = DynamicArray Uint8Array (InitialCapacity 2)"

definition full_example :: "8 word dynamic_array" where
  "full_example = snd (push 7 (DynamicArray Uint8Array (InitialCapacity 1)))"

text \<open>
  A policy that takes 4 to 1, 1 to 2 and every other capacity to 8, and
  \<^verbatim>\<open>new DynamicUint8Array({initialCapacity: 4, policy: erratic})\<close>.
\<close>

definition erratic_policy :: "nat \<Rightarrow> nat" where
  "erratic_policy c = (if c = 4 then 1 else if c = 1 then 2 else 8)"

definition erratic_example :: "8 word dynamic_array" where
  "erratic_example = DynamicArray Uint8Array (Options (Some 4) (Some erratic_policy))"

text \<open>
  That buffer after five pushes, the fifth of which throws (the policy takes 4 to 1):
  length 4, capacity 1, and the four values in an array of four slots.
\<close>

definition corrupted_example :: "8 word dynamic_array" where
  "corrupted_example = erratic_example\<lparr>length' := 4, capacity := 1, array := [1, 2, 3, 4]\<rparr>"

text \<open>
  The same buffer after two pushes and a \<^verbatim>\<open>grow\<close> that throws: length 2, capacity 1,
  an array of four slots.
\<close>

definition shrunk_example :: "8 word dynamic_array" where
  "shrunk_example = erratic_example\<lparr>length' := 2, capacity := 1, array := [1, 2, 0, 0]\<rparr>"

section \<open>Facts about the parts\<close>

lemma DEFAULT_GROWING_POLICY_div: "DEFAULT_GROWING_POLICY c = (3 * c + 1) div 2"
proof -
  have "\<exists>k. c = 2 * k \<or> c = 2 * k + 1" by presburger
  then obtain k where "c = 2 * k \<or> c = 2 * k + 1" ..
  then show ?thesis
  proof
    assume c: "c = 2 * k"
    have "\<lceil>real c * 1.5\<rceil> = int (3 * k)" by (rule ceiling_unique) (simp_all add: c)
    then show ?thesis by (simp add: DEFAULT_GROWING_POLICY_def c)
  next
    assume c: "c = 2 * k + 1"
    have "\<lceil>real c * 1.5\<rceil> = int (3 * k + 2)" by (rule ceiling_unique) (simp_all add: c)
    then show ?thesis by (simp add: DEFAULT_GROWING_POLICY_def c)
  qed
qed

lemma length_array_write [simp]: "List.length (array_write AC a i v) = List.length a"
  by (simp add: array_write_def)

lemma array_read_write:
  "array_read (array_write AC a i v) j =
     (if j = i \<and> i < List.length a
      then Some (case v of Some x \<Rightarrow> x | None \<Rightarrow> of_undefined AC)
      else array_read a j)"
  by (simp add: array_read_def array_write_def)

lemma length_copy [simp]:
  "List.length (fold (\<lambda>i a. array_write AC a i (array_read old i)) [0..<l] new) =
     List.length new"
  by (induction l) simp_all

lemma array_read_copy:
  "array_read (fold (\<lambda>i a. array_write AC a i (array_read old i)) [0..<l] new) j =
     (if j < l \<and> j < List.length new
      then Some (case array_read old j of Some x \<Rightarrow> x | None \<Rightarrow> of_undefined AC)
      else array_read new j)"
  by (induction l) (auto simp: array_read_write less_Suc_eq)

text \<open>What \<open>transfer\<close> changes and what it keeps.\<close>

lemma transfer_fields [simp]:
  "length' (transfer s) = length' s"
  "capacity (transfer s) = capacity s"
  "policy (transfer s) = policy s"
  "ArrayClass (transfer s) = ArrayClass s"
  "allocations (transfer s) = allocations s + 1"
  "List.length (array (transfer s)) = capacity s"
  by (simp_all add: transfer_def Let_def new_array_def)

lemma transfer_read:
  "j < length' s \<Longrightarrow> j < capacity s \<Longrightarrow> j < List.length (array s) \<Longrightarrow>
     array_read (array (transfer s)) j = array_read (array s) j"
  by (simp add: transfer_def Let_def array_read_copy new_array_def) (simp add: array_read_def)

text \<open>The three ways through one round of the loop of \<^verbatim>\<open>set\<close>.\<close>

lemma set_loop_exit: "index < capacity s \<Longrightarrow> set_loop capacity0 index s = Some (None, s)"
  by (subst set_loop.simps) simp

lemma set_loop_throw:
  "capacity s \<le> index \<Longrightarrow> policy s (capacity s) \<le> capacity0 \<Longrightarrow>
   set_loop capacity0 index s = Some (Some set_error, s\<lparr>capacity := policy s (capacity s)\<rparr>)"
  by (subst set_loop.simps) simp

lemma set_loop_step:
  "capacity s \<le> index \<Longrightarrow> capacity0 < policy s (capacity s) \<Longrightarrow>
   set_loop capacity0 index s =
     set_loop capacity0 index (s\<lparr>capacity := policy s (capacity s)\<rparr>)"
  by (subst set_loop.simps) simp

text \<open>
  When the loop ends, it has changed the capacity only. If it ends normally the
  capacity is above the index, and above \<open>capacity0\<close> if the loop was entered; if it
  throws, the capacity is at most \<open>capacity0\<close>.
\<close>

lemma set_loop_Some:
  assumes "set_loop capacity0 index s = Some y"
  shows "snd y = s\<lparr>capacity := capacity (snd y)\<rparr> \<and>
     (index < capacity s \<longrightarrow> y = (None, s)) \<and>
     (case fst y of
        None \<Rightarrow> index < capacity (snd y) \<and>
                (capacity s \<le> index \<longrightarrow> capacity0 < capacity (snd y))
      | Some e \<Rightarrow> e = set_error \<and> capacity (snd y) \<le> capacity0 \<and>
                (\<exists>c. capacity (snd y) = policy s c \<and> (c = capacity s \<or> capacity0 < c)))"
  using assms
proof (induct capacity0 index s y rule: set_loop.raw_induct[rotated 1, consumes 1, case_names step])
  case (step f c0 i st r)
  show ?case
  proof (cases "capacity st \<le> i")
    case False
    with step(2) show ?thesis by auto
  next
    case le: True
    show ?thesis
    proof (cases "policy st (capacity st) \<le> c0")
      case True
      with le step(2) show ?thesis by auto
    next
      case False
      with le step(2)
      have "f c0 i (st\<lparr>capacity := policy st (capacity st)\<rparr>) = Some r"
        by simp
      from step(1)[OF this] False le show ?thesis by (auto split: option.splits)
    qed
  qed
qed

text \<open>A call of \<^verbatim>\<open>set\<close> or \<^verbatim>\<open>grow\<close> that throws.\<close>

lemma set'_Inl:
  assumes "set' index v s = Some (Inl e, s')"
  shows "e = set_error \<and> s' = s\<lparr>capacity := capacity s'\<rparr> \<and> capacity s' \<le> capacity s \<and>
         (\<exists>c. capacity s' = policy s c \<and> (c = capacity s \<or> capacity s < c))"
proof -
  from assms have le: "capacity s \<le> index"
    by (auto simp: set'_def Let_def split: if_splits)
  with assms have "set_loop (capacity s) index s = Some (Some e, s')"
    by (auto simp: set'_def Let_def split: option.splits prod.splits)
  from set_loop_Some[OF this] show ?thesis by simp
qed

lemma grow_Inl:
  assumes "grow s = (Inl e, s')"
  shows "e = grow_error" "s' = s\<lparr>capacity := policy s (capacity s)\<rparr>"
    "policy s (capacity s) \<le> capacity s"
  using assms by (auto simp: grow_def Let_def split: if_splits)

lemma record_capacity_same:
  "s' = s\<lparr>capacity := capacity s'\<rparr> \<Longrightarrow> capacity s' = capacity s \<Longrightarrow> s' = s"
  for s :: "'a dynamic_array"
  by (metis dynamic_array.surjective dynamic_array.update_convs(3)
      dynamic_array.select_convs(3))

text \<open>
  The capacity the loop leaves is the result of applying the policy some number of times
  to the capacity it started from, each time to a capacity not above the index, and at
  least once when it throws.
\<close>

lemma set_loop_funpow:
  assumes "set_loop capacity0 index s = Some y"
  shows "\<exists>k. snd y = s\<lparr>capacity := (policy s ^^ k) (capacity s)\<rparr> \<and>
           (\<forall>j<k. (policy s ^^ j) (capacity s) \<le> index) \<and> (fst y \<noteq> None \<longrightarrow> 0 < k)"
  using assms
proof (induct capacity0 index s y rule: set_loop.raw_induct[rotated 1, consumes 1, case_names step])
  case (step f c0 i st r)
  show ?case
  proof (cases "capacity st \<le> i")
    case False
    with step(2) have "snd r = st\<lparr>capacity := (policy st ^^ 0) (capacity st)\<rparr> \<and> fst r = None"
      by auto
    then show ?thesis by (intro exI[of _ 0]) simp
  next
    case le: True
    show ?thesis
    proof (cases "policy st (capacity st) \<le> c0")
      case True
      with le step(2)
      have "snd r = st\<lparr>capacity := (policy st ^^ 1) (capacity st)\<rparr>" by auto
      with le show ?thesis by (intro exI[of _ 1]) simp
    next
      case False
      let ?st = "st\<lparr>capacity := policy st (capacity st)\<rparr>"
      from False le step(2) have "f c0 i ?st = Some r" by simp
      from step(1)[OF this] obtain k where
        k: "snd r = ?st\<lparr>capacity := (policy ?st ^^ k) (capacity ?st)\<rparr>"
          "\<forall>j<k. (policy ?st ^^ j) (capacity ?st) \<le> i" by blast
      from k(1) have 1: "snd r = st\<lparr>capacity := (policy st ^^ Suc k) (capacity st)\<rparr>"
        by (simp add: funpow_swap1)
      have 2: "\<forall>j<Suc k. (policy st ^^ j) (capacity st) \<le> i"
      proof (intro allI impI)
        fix j assume j: "j < Suc k"
        show "(policy st ^^ j) (capacity st) \<le> i"
        proof (cases j)
          case 0
          with le show ?thesis by simp
        next
          case (Suc j')
          with j k(2) have "(policy ?st ^^ j') (capacity ?st) \<le> i" by simp
          with Suc show ?thesis by (simp add: funpow_swap1)
        qed
      qed
      from 1 2 show ?thesis by (intro exI[of _ "Suc k"]) simp
    qed
  qed
qed

lemma set'_Inl_funpow:
  assumes "set' index v s = Some (Inl e, s')"
  shows "\<exists>k. s' = s\<lparr>capacity := (policy s ^^ Suc k) (capacity s)\<rparr> \<and>
           (\<forall>j\<le>k. (policy s ^^ j) (capacity s) \<le> index)"
proof -
  from assms have le: "capacity s \<le> index"
    by (auto simp: set'_def Let_def split: if_splits)
  with assms have "set_loop (capacity s) index s = Some (Some e, s')"
    by (auto simp: set'_def Let_def split: option.splits prod.splits)
  from set_loop_funpow[OF this] obtain k where
    k: "s' = s\<lparr>capacity := (policy s ^^ k) (capacity s)\<rparr>"
      "\<forall>j<k. (policy s ^^ j) (capacity s) \<le> index" "0 < k" by auto
  then obtain j where j: "k = Suc j" by (cases k) auto
  with k(2) have "\<forall>i\<le>j. (policy s ^^ i) (capacity s) \<le> index" by (simp add: less_Suc_eq_le)
  with k(1) j show ?thesis by blast
qed

text \<open>With the stalling policy the loop never ends once the capacity is 3.\<close>

lemma set_loop_stalls:
  assumes "set_loop capacity0 index s = Some y"
  shows "\<not> (capacity0 = 2 \<and> index = 5 \<and> capacity s = 3 \<and> policy s = stalling_policy)"
  using assms
proof (induct capacity0 index s y rule: set_loop.raw_induct[rotated 1, consumes 1, case_names step])
  case (step f c0 i st r)
  show ?case
  proof
    assume a: "c0 = 2 \<and> i = 5 \<and> capacity st = 3 \<and> policy st = stalling_policy"
    with step(2) have "f c0 i (st\<lparr>capacity := 3\<rparr>) = Some r"
      by (simp add: stalling_policy_def)
    from step(1)[OF this] a show False by simp
  qed
qed

text \<open>What the write of \<^verbatim>\<open>set\<close> changes, and a call of \<^verbatim>\<open>set\<close> or \<^verbatim>\<open>grow\<close> that returns.\<close>

lemma set_write_fields [simp]:
  "length' (set_write index v s) = max (length' s) (index + 1)"
  "capacity (set_write index v s) = capacity s"
  "policy (set_write index v s) = policy s"
  "ArrayClass (set_write index v s) = ArrayClass s"
  "allocations (set_write index v s) = allocations s"
  "array (set_write index v s) = array_write (ArrayClass s) (array s) index (Some v)"
  by (auto simp: set_write_def Let_def)

lemma set'_Inr:
  assumes "set' index v s = Some (Inr u, s')"
  shows "index < capacity s \<Longrightarrow> s' = set_write index v s"
    and "capacity s \<le> index \<Longrightarrow>
           \<exists>c. capacity s < c \<and> index < c \<and> s' = set_write index v (transfer (s\<lparr>capacity := c\<rparr>))"
proof -
  show "s' = set_write index v s" if "index < capacity s"
    using assms that by (simp add: set'_def)
  show "\<exists>c. capacity s < c \<and> index < c \<and> s' = set_write index v (transfer (s\<lparr>capacity := c\<rparr>))"
    if le: "capacity s \<le> index"
  proof -
    from assms le obtain s1 where l: "set_loop (capacity s) index s = Some (None, s1)"
      and s': "s' = set_write index v (transfer s1)"
      by (auto simp: set'_def Let_def split: option.splits prod.splits)
    from set_loop_Some[OF l] le
    have "s1 = s\<lparr>capacity := capacity s1\<rparr>" "index < capacity s1" "capacity s < capacity s1"
      by simp_all
    with s' show ?thesis by metis
  qed
qed

lemma grow_Inr:
  assumes "grow s = (Inr u, s')"
  shows "capacity s < policy s (capacity s)"
    and "s' = transfer (s\<lparr>capacity := policy s (capacity s)\<rparr>)"
  using assms by (auto simp: grow_def Let_def split: if_splits)

lemma invariant_DynamicArray: "invariant (DynamicArray AC init)"
  by (cases init) (simp_all add: invariant_def new_array_def Let_def)

lemma invariant_transfer:
  "length' s \<le> c \<Longrightarrow> invariant (transfer (s\<lparr>capacity := c\<rparr>))"
  by (simp add: invariant_def)

lemma invariant_set_write:
  "invariant s \<Longrightarrow> index < capacity s \<Longrightarrow> invariant (set_write index v s)"
  by (simp add: invariant_def)

lemma set'_invariant:
  assumes "invariant s" "set' index v s = Some (Inr u, s')"
  shows "invariant s'"
proof (cases "index < capacity s")
  case True
  with set'_Inr(1)[OF assms(2)] assms(1) show ?thesis by (simp add: invariant_set_write)
next
  case False
  with set'_Inr(2)[OF assms(2)] obtain c where c: "capacity s < c" "index < c"
    "s' = set_write index v (transfer (s\<lparr>capacity := c\<rparr>))" by auto
  from assms(1) c(1) have "length' s \<le> c" by (simp add: invariant_def)
  then have "invariant (transfer (s\<lparr>capacity := c\<rparr>))" by (rule invariant_transfer)
  with c show ?thesis by (simp add: invariant_set_write)
qed

lemma grow_invariant:
  assumes "invariant s" "grow s = (Inr u, s')"
  shows "invariant s'"
proof -
  from assms(1) grow_Inr(1)[OF assms(2)] have "length' s \<le> policy s (capacity s)"
    by (simp add: invariant_def)
  then show ?thesis unfolding grow_Inr(2)[OF assms(2)] by (rule invariant_transfer)
qed

lemma set'_policy: "set' index v s = Some (r, s') \<Longrightarrow> policy s' = policy s"
proof (cases r)
  case (Inl e)
  assume "set' index v s = Some (r, s')"
  with Inl have "set' index v s = Some (Inl e, s')" by simp
  from set'_Inl[OF this] have "s' = s\<lparr>capacity := capacity s'\<rparr>" by simp
  then have "policy s' = policy (s\<lparr>capacity := capacity s'\<rparr>)" by simp
  then show ?thesis by simp
next
  case (Inr u)
  assume "set' index v s = Some (r, s')"
  with Inr have *: "set' index v s = Some (Inr u, s')" by simp
  show ?thesis
  proof (cases "index < capacity s")
    case True
    with set'_Inr(1)[OF *] show ?thesis by simp
  next
    case False
    with set'_Inr(2)[OF *] show ?thesis by auto
  qed
qed

lemma grow_policy: "grow s = (r, s') \<Longrightarrow> policy s' = policy s"
  by (auto simp: grow_def Let_def split: if_splits)

lemma transfer_grown_read:
  "j < length' s \<Longrightarrow> j < c \<Longrightarrow> j < List.length (array s) \<Longrightarrow>
     array_read (array (transfer (s\<lparr>capacity := c\<rparr>))) j = array_read (array s) j"
  by (simp add: transfer_read)

lemma grow_Inr_read:
  assumes "invariant s" "grow s = (Inr u, s')" "i < length' s"
  shows "array_read (array s') i = array_read (array s) i"
proof -
  note gi = grow_Inr[OF assms(2)]
  from assms(1,3) gi(1) show ?thesis unfolding gi(2)
    by (intro transfer_grown_read) (simp_all add: invariant_def)
qed

lemma grow_Inr_fields:
  assumes "grow s = (Inr u, s')"
  shows "length' s' = length' s" "capacity s < capacity s'"
  using grow_Inr[OF assms] by simp_all

lemma push_Inr:
  assumes "invariant s" "push v s = (Inr n, s')"
  shows "invariant s'" "n = length' s + 1" "length' s' = length' s + 1"
    "capacity s \<le> capacity s'" "policy s' = policy s"
    "\<forall>i<length' s. array_read (array s') i = array_read (array s) i"
    "array_read (array s') (length' s) = Some v"
proof -
  obtain s1 where ok: "(if capacity s \<le> length' s then grow s else (Inr (), s)) = (Inr (), s1)"
    using assms(2) by (auto simp: push_def split: prod.splits sum.splits)
  have s': "s' = s1\<lparr>array := array_write (ArrayClass s1) (array s1) (length' s1) (Some v),
                    length' := length' s1 + 1\<rparr>" and n: "n = length' s1 + 1"
    using assms(2) ok by (auto simp: push_def Let_def)
  have s1: "invariant s1 \<and> length' s1 = length' s \<and> length' s1 < capacity s1 \<and>
      capacity s \<le> capacity s1 \<and> policy s1 = policy s \<and>
      (\<forall>i<length' s. array_read (array s1) i = array_read (array s) i)"
  proof (cases "capacity s \<le> length' s")
    case False
    with ok assms(1) show ?thesis by simp
  next
    case True
    with ok have g: "grow s = (Inr (), s1)" by simp
    from grow_invariant[OF assms(1) g] grow_Inr_fields[OF g] grow_Inr_read[OF assms(1) g]
      grow_policy[OF g] assms(1) True
    show ?thesis by (simp add: invariant_def)
  qed
  from s1 show "invariant s'" by (simp add: s' invariant_def)
  from s1 show "n = length' s + 1" "length' s' = length' s + 1" "capacity s \<le> capacity s'"
    "policy s' = policy s"
    by (simp_all add: s' n)
  from s1 show "\<forall>i<length' s. array_read (array s') i = array_read (array s) i"
    by (simp add: s' array_read_write)
  from s1 show "array_read (array s') (length' s) = Some v"
    by (simp add: s' array_read_write invariant_def)
qed

lemma push_total:
  assumes "length' s < capacity s \<or> capacity s < policy s (capacity s)"
  shows "\<exists>n s'. push v s = (Inr n, s')"
  using assms by (auto simp: push_def grow_def Let_def)

lemma push_policy: "push v s = (r, s') \<Longrightarrow> policy s' = policy s"
  by (auto simp: push_def Let_def grow_def split: if_splits prod.splits sum.splits)

lemma pop_invariant: "invariant s \<Longrightarrow> invariant (snd (pop s))"
  by (auto simp: pop_def invariant_def Let_def)

lemma pop_policy [simp]: "policy (snd (pop s)) = policy s"
  by (simp add: pop_def Let_def)

lemma push_invariant:
  assumes "invariant s" "push v s = (r, s')" "thrown r = None \<or> (\<forall>c. c \<le> policy s c)"
  shows "invariant s'"
proof (cases r)
  case (Inr n)
  with assms(2) have "push v s = (Inr n, s')" by simp
  from push_Inr(1)[OF assms(1) this] show ?thesis .
next
  case (Inl e)
  with assms(2) have g: "grow s = (Inl e, s')"
    by (auto simp: push_def Let_def split: if_splits prod.splits sum.splits)
  from Inl assms(3) have "\<forall>c. c \<le> policy s c" by simp
  then have "capacity s \<le> policy s (capacity s)" by simp
  with grow_Inl[OF g] have "s' = s" by simp
  with assms(1) show ?thesis by simp
qed

lemma step_invariant:
  assumes "invariant s" "step x s = Some (e, s')" "e = None \<or> (\<forall>c. c \<le> policy s c)"
  shows "invariant s' \<and> policy s' = policy s"
proof (cases x)
  case (Get i)
  with assms show ?thesis by simp
next
  case (Set i v)
  with assms(2) obtain r where r: "set' i v s = Some (r, s')" "e = thrown r"
    by (auto split: option.splits prod.splits)
  have "invariant s'"
  proof (cases r)
    case (Inr u)
    with r have "set' i v s = Some (Inr u, s')" by simp
    from set'_invariant[OF assms(1) this] show ?thesis .
  next
    case (Inl err)
    with r assms(3) have mono: "\<forall>c. c \<le> policy s c" by simp
    from Inl r have f: "set' i v s = Some (Inl err, s')" by simp
    note * = set'_Inl[OF f]
    from * obtain c where c: "capacity s' = policy s c" "c = capacity s \<or> capacity s < c"
      by blast
    from mono have "c \<le> policy s c" by simp
    with c * have "capacity s' = capacity s" by auto
    with * have "s' = s" by (metis record_capacity_same)
    with assms(1) show ?thesis by simp
  qed
  with set'_policy[OF r(1)] show ?thesis by simp
next
  case (Push v)
  with assms(2) obtain r where r: "push v s = (r, s')" "e = thrown r"
    by (auto split: prod.splits)
  from push_invariant[OF assms(1) r(1)] assms(3) r(2) push_policy[OF r(1)]
  show ?thesis by simp
next
  case Pop
  with assms show ?thesis by (auto simp: pop_invariant)
next
  case Grow
  with assms(2) obtain r where r: "grow s = (r, s')" "e = thrown r"
    by (auto split: prod.splits)
  have "invariant s'"
  proof (cases r)
    case (Inr u)
    with r have "grow s = (Inr u, s')" by simp
    from grow_invariant[OF assms(1) this] show ?thesis .
  next
    case (Inl err)
    with r assms(3) have "capacity s \<le> policy s (capacity s)" by simp
    with grow_Inl[of s err s'] Inl r have "s' = s" by simp
    with assms(1) show ?thesis by simp
  qed
  with grow_policy[OF r(1)] show ?thesis by simp
qed

lemma run_invariant:
  "invariant s \<Longrightarrow> run xs s = Some (es, s') \<Longrightarrow>
     (\<forall>e\<in>set es. e = None) \<or> (\<forall>c. c \<le> policy s c) \<Longrightarrow> invariant s'"
proof (induction xs arbitrary: s es)
  case Nil
  then show ?case by simp
next
  case (Cons x xs)
  from Cons.prems(2) obtain e s1 es1 where st: "step x s = Some (e, s1)"
    and r: "run xs s1 = Some (es1, s')" and es: "es = e # es1"
    by (auto split: option.splits prod.splits)
  from Cons.prems(3) es have "e = None \<or> (\<forall>c. c \<le> policy s c)" by auto
  from step_invariant[OF Cons.prems(1) st this] have s1: "invariant s1" "policy s1 = policy s"
    by simp_all
  from Cons.prems(3) es s1(2) have "(\<forall>e\<in>set es1. e = None) \<or> (\<forall>c. c \<le> policy s1 c)" by auto
  from Cons.IH[OF s1(1) r this] show ?case .
qed

text \<open>
  In every buffer that a sequence of calls produces from a freshly constructed one, calls
  that throw included, the capacity is at most the number of slots of the array.
\<close>

lemma grow_capacity_le:
  "capacity s \<le> List.length (array s) \<Longrightarrow> grow s = (r, s') \<Longrightarrow>
     capacity s' \<le> List.length (array s')"
  by (auto simp: grow_def Let_def split: if_splits)

lemma push_capacity_le:
  assumes "capacity s \<le> List.length (array s)" "push v s = (r, s')"
  shows "capacity s' \<le> List.length (array s')"
proof (cases "capacity s \<le> length' s")
  case False
  with assms show ?thesis by (auto simp: push_def Let_def)
next
  case True
  obtain r1 s1 where g: "grow s = (r1, s1)" by (cases "grow s")
  from grow_capacity_le[OF assms(1) g] have "capacity s1 \<le> List.length (array s1)" .
  with assms(2) True g show ?thesis
    by (cases r1) (auto simp: push_def Let_def)
qed

lemma pop_capacity_le:
  "capacity s \<le> List.length (array s) \<Longrightarrow>
     capacity (snd (pop s)) \<le> List.length (array (snd (pop s)))"
  by (simp add: pop_def Let_def)

lemma set'_Inl_array:
  assumes "set' i v s = Some (Inl err, s')"
  shows "array s' = array s" "capacity s' \<le> capacity s"
proof -
  from set'_Inl[OF assms] have eq: "s' = s\<lparr>capacity := capacity s'\<rparr>"
      and le: "capacity s' \<le> capacity s"
    by blast+
  have "array s' = array (s\<lparr>capacity := capacity s'\<rparr>)"
    by (rule arg_cong[OF eq])
  then show "array s' = array s" by simp
  from le show "capacity s' \<le> capacity s" .
qed

lemma set'_capacity_le:
  assumes "capacity s \<le> List.length (array s)" "set' i v s = Some (r, s')"
  shows "capacity s' \<le> List.length (array s')"
proof (cases r)
  case (Inl err)
  with assms(2) have "set' i v s = Some (Inl err, s')" by simp
  from set'_Inl_array[OF this] assms(1) show ?thesis by simp
next
  case (Inr u)
  with assms(2) have *: "set' i v s = Some (Inr u, s')" by simp
  show ?thesis
  proof (cases "i < capacity s")
    case True
    from set'_Inr(1)[OF * True] assms(1) show ?thesis by simp
  next
    case False
    then have "capacity s \<le> i" by simp
    from set'_Inr(2)[OF * this] obtain c where "s' = set_write i v (transfer (s\<lparr>capacity := c\<rparr>))"
      by blast
    then show ?thesis by simp
  qed
qed

lemma step_capacity_le:
  assumes "capacity s \<le> List.length (array s)" "step x s = Some (e, s')"
  shows "capacity s' \<le> List.length (array s')"
proof (cases x)
  case (Get i)
  with assms show ?thesis by simp
next
  case (Set i v)
  with assms(2) obtain r where "set' i v s = Some (r, s')"
    by (auto split: option.splits prod.splits)
  from set'_capacity_le[OF assms(1) this] show ?thesis .
next
  case (Push v)
  with assms(2) obtain r where "push v s = (r, s')"
    by (auto split: prod.splits)
  from push_capacity_le[OF assms(1) this] show ?thesis .
next
  case Pop
  with assms(2) have "s' = snd (pop s)" by simp
  with pop_capacity_le[OF assms(1)] show ?thesis by simp
next
  case Grow
  with assms(2) obtain r where "grow s = (r, s')"
    by (auto split: prod.splits)
  from grow_capacity_le[OF assms(1) this] show ?thesis .
qed

lemma run_capacity_le:
  "capacity s \<le> List.length (array s) \<Longrightarrow> run xs s = Some (es, s') \<Longrightarrow>
     capacity s' \<le> List.length (array s')"
proof (induction xs arbitrary: s es)
  case Nil
  then show ?case by simp
next
  case (Cons x xs)
  from Cons.prems(2) obtain e s1 es1 where st: "step x s = Some (e, s1)"
    and r: "run xs s1 = Some (es1, s')"
    by (auto split: option.splits prod.splits)
  from Cons.IH[OF step_capacity_le[OF Cons.prems(1) st] r] show ?case .
qed

lemma reachable_capacity_le:
  "run xs (DynamicArray AC init) = Some (es, s') \<Longrightarrow> capacity s' \<le> List.length (array s')"
proof -
  assume r: "run xs (DynamicArray AC init) = Some (es, s')"
  have "capacity (DynamicArray AC init) \<le> List.length (array (DynamicArray AC init))"
    using invariant_DynamicArray[of AC init] by (simp add: invariant_def)
  from run_capacity_le[OF this r] show ?thesis .
qed

text \<open>
  Reallocation and pushes on a buffer whose length is at most its capacity and whose
  capacity is at most the number of slots of its array.
\<close>

lemma grow_Inr_read_weak:
  assumes "length' s \<le> capacity s" "length' s \<le> List.length (array s)"
    "grow s = (Inr u, s')" "i < length' s"
  shows "array_read (array s') i = array_read (array s) i"
proof -
  note gi = grow_Inr[OF assms(3)]
  from assms(1,2,4) gi(1) show ?thesis unfolding gi(2)
    by (intro transfer_grown_read) simp_all
qed

lemma push_Inr_weak:
  assumes "length' s \<le> capacity s" "capacity s \<le> List.length (array s)"
    "push v s = (Inr n, s')"
  shows "length' s' \<le> capacity s'" "capacity s' \<le> List.length (array s')"
    "n = length' s + 1" "length' s' = length' s + 1"
    "capacity s \<le> capacity s'" "policy s' = policy s"
    "\<forall>i<length' s. array_read (array s') i = array_read (array s) i"
    "array_read (array s') (length' s) = Some v"
proof -
  obtain s1 where ok: "(if capacity s \<le> length' s then grow s else (Inr (), s)) = (Inr (), s1)"
    using assms(3) by (auto simp: push_def split: prod.splits sum.splits)
  have s': "s' = s1\<lparr>array := array_write (ArrayClass s1) (array s1) (length' s1) (Some v),
                    length' := length' s1 + 1\<rparr>" and n: "n = length' s1 + 1"
    using assms(3) ok by (auto simp: push_def Let_def)
  have s1: "length' s1 = length' s \<and> length' s1 < capacity s1 \<and>
      capacity s1 \<le> List.length (array s1) \<and>
      capacity s \<le> capacity s1 \<and> policy s1 = policy s \<and>
      (\<forall>i<length' s. array_read (array s1) i = array_read (array s) i)"
  proof (cases "capacity s \<le> length' s")
    case False
    with ok assms(1,2) show ?thesis by simp
  next
    case True
    with ok have g: "grow s = (Inr (), s1)" by simp
    from assms(1,2) have ls: "length' s \<le> List.length (array s)" by simp
    from grow_capacity_le[OF assms(2) g] grow_Inr_fields[OF g]
      grow_Inr_read_weak[OF assms(1) ls g] grow_policy[OF g] assms(1) True
    show ?thesis by simp
  qed
  from s1 show "length' s' \<le> capacity s'" "capacity s' \<le> List.length (array s')"
    "n = length' s + 1" "length' s' = length' s + 1" "capacity s \<le> capacity s'"
    "policy s' = policy s"
    by (simp_all add: s' n)
  from s1 show "\<forall>i<length' s. array_read (array s') i = array_read (array s) i"
    by (simp add: s' array_read_write)
  from s1 show "array_read (array s') (length' s) = Some v"
    by (simp add: s' array_read_write)
qed

lemma pushes_Inr_weak:
  "length' s \<le> capacity s \<Longrightarrow> capacity s \<le> List.length (array s) \<Longrightarrow>
   pushes vs s = (Inr ns, s') \<Longrightarrow>
     length' s' = length' s + List.length vs \<and>
     ns = [length' s + 1 ..< length' s + List.length vs + 1] \<and>
     (\<forall>i<length' s. array_read (array s') i = array_read (array s) i) \<and>
     (\<forall>i<List.length vs. array_read (array s') (length' s + i) = Some (vs ! i))"
proof (induction vs arbitrary: s ns)
  case Nil
  then show ?case by simp
next
  case (Cons v vs)
  from Cons.prems(3) obtain n s1 ns1 where p: "push v s = (Inr n, s1)"
    and ps: "pushes vs s1 = (Inr ns1, s')" and ns: "ns = n # ns1"
    by (auto split: prod.splits sum.splits)
  note p1 = push_Inr_weak[OF Cons.prems(1,2) p]
  from Cons.IH[OF p1(1,2) ps] have ih:
    "length' s' = length' s1 + List.length vs"
    "ns1 = [length' s1 + 1 ..< length' s1 + List.length vs + 1]"
    "\<forall>i<length' s1. array_read (array s') i = array_read (array s1) i"
    "\<forall>i<List.length vs. array_read (array s') (length' s1 + i) = Some (vs ! i)"
    by simp_all
  have "[length' s + 1 ..< length' s + List.length (v # vs) + 1] =
      (length' s + 1) # [length' s + 1 + 1 ..< length' s + 1 + List.length vs + 1]"
    by (subst upt_rec) simp
  with ns ih(2) p1(3,4)
  have "ns = [length' s + 1 ..< length' s + List.length (v # vs) + 1]"
    by simp
  moreover have "\<forall>i<length' s. array_read (array s') i = array_read (array s) i"
    using ih(3) p1(4,7) by simp
  moreover have "\<forall>i<List.length (v # vs). array_read (array s') (length' s + i) = Some ((v # vs) ! i)"
  proof (intro allI impI)
    fix i assume i: "i < List.length (v # vs)"
    show "array_read (array s') (length' s + i) = Some ((v # vs) ! i)"
    proof (cases i)
      case 0
      with ih(3) p1(4,8) show ?thesis by simp
    next
      case (Suc j)
      with i ih(4) p1(4) show ?thesis by simp
    qed
  qed
  ultimately show ?case using ih(1) p1(4) by simp
qed

lemma pushes_total_weak:
  "length' s \<le> capacity s \<Longrightarrow> capacity s \<le> List.length (array s) \<Longrightarrow>
   \<forall>c\<ge>capacity s. c < policy s c \<Longrightarrow> \<exists>ns s'. pushes vs s = (Inr ns, s')"
proof (induction vs arbitrary: s)
  case Nil
  then show ?case by simp
next
  case (Cons v vs)
  from Cons.prems(3) have "capacity s < policy s (capacity s)" by simp
  then have "\<exists>n s1. push v s = (Inr n, s1)" by (intro push_total) simp
  then obtain n s1 where p: "push v s = (Inr n, s1)" by blast
  note p1 = push_Inr_weak[OF Cons.prems(1,2) p]
  from Cons.prems(3) p1(5,6) have "\<forall>c\<ge>capacity s1. c < policy s1 c" by simp
  from Cons.IH[OF p1(1,2) this] obtain ns s' where "pushes vs s1 = (Inr ns, s')" by blast
  with p show ?case by simp
qed

text \<open>Rules that evaluate the methods on the example buffers.\<close>

lemma replicate_num: "replicate (numeral k) x = x # replicate (pred_numeral k) x"
  by (simp add: numeral_eq_Suc)

lemma upt_num: "[i..<numeral n] = (if i < numeral n then i # [Suc i..<numeral n] else [])"
  by (rule upt_rec)

lemma list_update_num: "(x # xs)[numeral k := y] = x # xs[pred_numeral k := y]"
  by (simp add: numeral_eq_Suc)

lemmas eval_simps =
  push_def grow_def pop_def get_def set'_def set_write_def transfer_def Let_def
  new_array_def array_read_def array_write_def
  set_loop_exit set_loop_step set_loop_throw
  DEFAULT_GROWING_POLICY_div halving_policy_def invariant_def
  replicate_num upt_num list_update_num Uint8Array_def

lemmas eval_simps2 = eval_simps erratic_policy_def erratic_example_def corrupted_example_def

text \<open>How the two damaged example buffers come about.\<close>

lemma corrupted_example_reachable:
  "run [Push 1, Push 2, Push 3, Push 4, Push 5] erratic_example =
     Some ([None, None, None, None, Some grow_error], corrupted_example)"
  by (simp add: eval_simps2)

lemma shrunk_example_reachable:
  "run [Push 1, Push 2, Grow] erratic_example =
     Some ([None, None, Some grow_error], shrunk_example)"
  by (simp add: eval_simps2 shrunk_example_def)

section \<open>The claims\<close>

text \<open>
  C1. The guard of \<^verbatim>\<open>get\<close> is \<^verbatim>\<open>this.length < index\<close>, so at \<open>index = length\<close> the
  slot is read: after \<^verbatim>\<open>push(7)\<close> and \<^verbatim>\<open>pop()\<close> on a buffer of capacity 1 the length
  is 0 and \<^verbatim>\<open>get(0)\<close> returns the stored 7, not \<^verbatim>\<open>undefined\<close>.
\<close>

theorem get_at_length_returns_stored_value:
  "length' popped_example = 0 \<and> get 0 popped_example = Some 7"
  by (simp add: popped_example_def push_def pop_def get_def Let_def new_array_def
      array_write_def array_read_def)

text \<open>
  C2. On a buffer constructed with initial capacity 0 and the default policy,
  \<^verbatim>\<open>set(0, v)\<close> throws the error of the sanity check and leaves the buffer as
  constructed (capacity 0, length 0): the default policy maps 0 to 0.
\<close>

theorem set_on_zero_capacity_throws:
  "set' 0 v (DynamicArray AC (InitialCapacity 0)) =
     Some (Inl set_error, DynamicArray AC (InitialCapacity 0))"
  by (simp add: set'_def Let_def set_loop_throw DEFAULT_GROWING_POLICY_div)

text \<open>
  C3. The sanity check in the loop of \<^verbatim>\<open>set\<close> compares with the capacity held before
  the loop, not with the capacity the policy was applied to. With capacity 2 and the
  stalling policy, \<^verbatim>\<open>set(5, v)\<close> gets 3 from the first application, then 3 from 3 again
  and again; 3 is above 2, nothing is thrown, and the call does not return.
\<close>

theorem set_with_stalling_policy_never_returns:
  "set' 5 v (DynamicArray AC (Options (Some 2) (Some stalling_policy))) = None"
proof -
  let ?s = "DynamicArray AC (Options (Some 2) (Some stalling_policy))"
  have "set_loop 2 5 ?s = set_loop 2 5 (?s\<lparr>capacity := 3\<rparr>)"
    by (subst set_loop_step) (simp_all add: stalling_policy_def)
  moreover have "set_loop 2 5 (?s\<lparr>capacity := 3\<rparr>) = None"
  proof (cases "set_loop 2 5 (?s\<lparr>capacity := 3\<rparr>)")
    case (Some y)
    from set_loop_stalls[OF this] show ?thesis by simp
  qed simp
  ultimately show ?thesis by (simp add: set'_def)
qed

text \<open>
  C4, as the claim states it, fails: \<^verbatim>\<open>grow\<close> on a buffer of capacity 2 with the halving
  policy throws and leaves the capacity at 1.
\<close>

theorem grow_failure_changes_capacity:
  "fst (grow halving_example) = Inl grow_error \<and>
   capacity (snd (grow halving_example)) = 1 \<and>
   capacity halving_example = 2"
  by (simp add: halving_example_def grow_def Let_def halving_policy_def)

text \<open>
  C4, amended. When \<^verbatim>\<open>grow\<close> or \<^verbatim>\<open>set\<close> throws, the length, the array and its
  stored values (every field but the capacity) are as before the call, and the capacity
  holds what the policy returned last: for \<^verbatim>\<open>grow\<close> the policy's value at the old
  capacity, which is at most the old capacity; for \<^verbatim>\<open>set\<close> the result of applying the
  policy one or more times in a row to the old capacity, each time to a capacity that is
  not above the index.
\<close>

theorem failed_growth_changes_capacity_only:
  "(grow s = (Inl e1, s1) \<longrightarrow>
      e1 = grow_error \<and> s1 = s\<lparr>capacity := policy s (capacity s)\<rparr> \<and>
      policy s (capacity s) \<le> capacity s) \<and>
   (set' index v s = Some (Inl e2, s2) \<longrightarrow>
      e2 = set_error \<and>
      (\<exists>k. s2 = s\<lparr>capacity := (policy s ^^ Suc k) (capacity s)\<rparr> \<and>
           (\<forall>j\<le>k. (policy s ^^ j) (capacity s) \<le> index)))"
proof (intro conjI impI)
  assume g: "grow s = (Inl e1, s1)"
  from grow_Inl[OF g] show "e1 = grow_error" "s1 = s\<lparr>capacity := policy s (capacity s)\<rparr>"
    "policy s (capacity s) \<le> capacity s" .
next
  assume g: "set' index v s = Some (Inl e2, s2)"
  from set'_Inl[OF g] show "e2 = set_error" by blast
  from set'_Inl_funpow[OF g]
  show "\<exists>k. s2 = s\<lparr>capacity := (policy s ^^ Suc k) (capacity s)\<rparr> \<and>
           (\<forall>j\<le>k. (policy s ^^ j) (capacity s) \<le> index)" .
qed

theorem failed_growth_witness:
  "grow halving_example = (Inl grow_error, halving_example\<lparr>capacity := 1\<rparr>) \<and>
   set' 5 9 halving_example = Some (Inl set_error, halving_example\<lparr>capacity := 1\<rparr>) \<and>
   policy halving_example (capacity halving_example) = 1 \<and> capacity halving_example = 2"
proof -
  have g: "grow halving_example = (Inl grow_error, halving_example\<lparr>capacity := 1\<rparr>)"
    by (simp add: halving_example_def eval_simps)
  have s: "set' 5 9 halving_example = Some (Inl set_error, halving_example\<lparr>capacity := 1\<rparr>)"
    by (simp add: halving_example_def eval_simps)
  from failed_growth_changes_capacity_only[of halving_example grow_error
      "halving_example\<lparr>capacity := 1\<rparr>" 5 9 set_error "halving_example\<lparr>capacity := 1\<rparr>"] g s
  show ?thesis by (simp add: halving_example_def eval_simps)
qed

text \<open>
  C5, as the claim states it, fails: on a buffer of capacity 2 with the halving policy the
  third \<^verbatim>\<open>push\<close> throws and leaves length 2, capacity 1 and an array of 2 slots.
\<close>

theorem failed_push_breaks_invariant:
  "run [Push 7, Push 8, Push 9] halving_example =
     Some ([None, None, Some grow_error],
           halving_example\<lparr>length' := 2, capacity := 1, array := [7, 8]\<rparr>) \<and>
   \<not> invariant (halving_example\<lparr>length' := 2, capacity := 1, array := [7, 8]\<rparr>)"
  by (simp add: halving_example_def eval_simps)

text \<open>
  C5, amended. After any finite sequence of calls on a freshly constructed buffer in
  which no call throws, or with a policy that never returns less than its argument, the
  length is at most the capacity and the capacity is the number of slots of the array.
\<close>

theorem invariant_after_run:
  "run xs (DynamicArray AC init) = Some (es, s') \<Longrightarrow>
     (\<forall>e\<in>set es. e = None) \<or> (\<forall>c. c \<le> policy (DynamicArray AC init) c) \<Longrightarrow>
     length' s' \<le> capacity s' \<and> capacity s' = List.length (array s')"
  using run_invariant[OF invariant_DynamicArray] by (simp add: invariant_def) blast

theorem invariant_after_run_witness:
  "run [Push 10, Push 20, Push 30, Pop, Set 5 1, Grow, Get 0] fresh_example =
     Some ([None, None, None, None, None, None, None],
           fresh_example\<lparr>length' := 6, capacity := 12,
             array := [10, 20, 0, 0, 0, 1, 0, 0, 0, 0, 0, 0], allocations := 4\<rparr>) \<and>
   length' (fresh_example\<lparr>length' := 6, capacity := 12,
              array := [10, 20, 0, 0, 0, 1, 0, 0, 0, 0, 0, 0], allocations := 4\<rparr>)
     \<le> capacity (fresh_example\<lparr>length' := 6, capacity := 12,
              array := [10, 20, 0, 0, 0, 1, 0, 0, 0, 0, 0, 0], allocations := 4\<rparr>) \<and>
   capacity (fresh_example\<lparr>length' := 6, capacity := 12,
              array := [10, 20, 0, 0, 0, 1, 0, 0, 0, 0, 0, 0], allocations := 4\<rparr>)
     = List.length (array (fresh_example\<lparr>length' := 6, capacity := 12,
              array := [10, 20, 0, 0, 0, 1, 0, 0, 0, 0, 0, 0], allocations := 4\<rparr>))"
proof -
  let ?s' = "fresh_example\<lparr>length' := 6, capacity := 12,
               array := [10, 20, 0, 0, 0, 1, 0, 0, 0, 0, 0, 0], allocations := 4\<rparr>"
  let ?es = "[None, None, None, None, None, None, None] :: error option list"
  have r: "run [Push 10, Push 20, Push 30, Pop, Set 5 1, Grow, Get 0] fresh_example =
     Some (?es, ?s')"
    by (simp add: fresh_example_def eval_simps)
  have h: "(\<forall>e\<in>set ?es. e = None) \<or>
      (\<forall>c. c \<le> policy (DynamicArray Uint8Array (InitialCapacity 2)) c)"
    by simp
  from invariant_after_run[OF r[unfolded fresh_example_def] h] r show ?thesis
    by (simp only: fresh_example_def) simp
qed

text \<open>
  C6, as the claim states it, fails. Five pushes on the erratic example, the fifth of
  which throws, leave length 4, capacity 1 and the values 1, 2, 3, 4; \<^verbatim>\<open>grow\<close> then
  returns with an array of two slots, and slot 2, below the length, has lost its 3.
\<close>

theorem reallocation_loses_slots:
  "run [Push 1, Push 2, Push 3, Push 4, Push 5] erratic_example =
     Some ([None, None, None, None, Some grow_error], corrupted_example) \<and>
   length' corrupted_example = 4 \<and> array_read (array corrupted_example) 2 = Some 3 \<and>
   grow corrupted_example =
     (Inr (), corrupted_example\<lparr>capacity := 2, array := [1, 2], allocations := 2\<rparr>) \<and>
   array_read (array (corrupted_example\<lparr>capacity := 2, array := [1, 2], allocations := 2\<rparr>)) 2
     = None"
  using corrupted_example_reachable by (simp add: eval_simps2)

text \<open>
  C6, amended. On a buffer whose length is at most its capacity and at most the number
  of slots of its array, every reallocation (a \<^verbatim>\<open>grow\<close> that returns, a \<^verbatim>\<open>set\<close> at
  an index not below the capacity that returns, a \<^verbatim>\<open>push\<close> on a full buffer that
  returns) keeps the value of every slot below the length held before.
\<close>

theorem reallocation_preserves_prefix:
  "length' s \<le> capacity s \<Longrightarrow> length' s \<le> List.length (array s) \<Longrightarrow> i < length' s \<Longrightarrow>
     (grow s = (Inr (), s1) \<longrightarrow> array_read (array s1) i = array_read (array s) i) \<and>
     (capacity s \<le> index \<longrightarrow> set' index v s = Some (Inr (), s2) \<longrightarrow>
        array_read (array s2) i = array_read (array s) i) \<and>
     (capacity s \<le> length' s \<longrightarrow> push v s = (Inr n, s3) \<longrightarrow>
        array_read (array s3) i = array_read (array s) i)"
proof (intro conjI impI)
  assume lc: "length' s \<le> capacity s" and ls: "length' s \<le> List.length (array s)"
    and i: "i < length' s"
  {
    assume "grow s = (Inr (), s1)"
    from grow_Inr_read_weak[OF lc ls this i]
    show "array_read (array s1) i = array_read (array s) i" .
  }
  {
    assume le: "capacity s \<le> index" and st: "set' index v s = Some (Inr (), s2)"
    from set'_Inr(2)[OF st le] obtain c where c: "capacity s < c" "index < c"
      "s2 = set_write index v (transfer (s\<lparr>capacity := c\<rparr>))" by auto
    from lc ls i le have ne: "i \<noteq> index" and ic: "i < c" and il: "i < List.length (array s)"
      using c(1) by simp_all
    from ne have "array_read (array s2) i = array_read (array (transfer (s\<lparr>capacity := c\<rparr>))) i"
      by (simp add: c(3) array_read_write)
    also have "\<dots> = array_read (array s) i"
      using i ic il by (rule transfer_grown_read)
    finally show "array_read (array s2) i = array_read (array s) i" .
  }
  {
    assume full: "capacity s \<le> length' s" and p: "push v s = (Inr n, s3)"
    from full p obtain s1 where g: "grow s = (Inr (), s1)"
      and s3: "s3 = s1\<lparr>array := array_write (ArrayClass s1) (array s1) (length' s1) (Some v),
                        length' := length' s1 + 1\<rparr>"
      by (auto simp: push_def Let_def split: prod.splits sum.splits)
    from grow_Inr_fields(1)[OF g] i have "i \<noteq> length' s1" by simp
    then have "array_read (array s3) i = array_read (array s1) i"
      by (simp add: s3 array_read_write)
    also from grow_Inr_read_weak[OF lc ls g i] have "\<dots> = array_read (array s) i" .
    finally show "array_read (array s3) i = array_read (array s) i" .
  }
qed

theorem reallocation_preserves_prefix_witness:
  "length' full_example \<le> capacity full_example \<and>
   length' full_example \<le> List.length (array full_example) \<and> 0 < length' full_example \<and>
   grow full_example =
     (Inr (), full_example\<lparr>capacity := 2, array := [7, 0], allocations := 2\<rparr>) \<and>
   set' 1 9 full_example =
     Some (Inr (), full_example\<lparr>length' := 2, capacity := 2, array := [7, 9],
                                allocations := 2\<rparr>) \<and>
   push 9 full_example =
     (Inr 2, full_example\<lparr>length' := 2, capacity := 2, array := [7, 9],
                          allocations := 2\<rparr>) \<and>
   array_read (array full_example) 0 = Some 7 \<and>
   array_read [7, 0 :: 8 word] 0 = Some 7 \<and> array_read [7, 9 :: 8 word] 0 = Some 7"
proof -
  let ?s1 = "full_example\<lparr>capacity := 2, array := [7, 0], allocations := 2\<rparr>"
  let ?s2 = "full_example\<lparr>length' := 2, capacity := 2, array := [7, 9], allocations := 2\<rparr>"
  have i: "length' full_example \<le> capacity full_example"
    "length' full_example \<le> List.length (array full_example)" "0 < length' full_example"
    by (simp_all add: full_example_def eval_simps)
  have g: "grow full_example = (Inr (), ?s1)"
    by (simp add: full_example_def eval_simps)
  have s: "set' 1 9 full_example = Some (Inr (), ?s2)"
    by (simp add: full_example_def eval_simps)
  have p: "push 9 full_example = (Inr 2, ?s2)"
    by (simp add: full_example_def eval_simps)
  have c: "capacity full_example \<le> 1" "capacity full_example \<le> length' full_example"
    by (simp_all add: full_example_def eval_simps)
  from reallocation_preserves_prefix[OF i, where ?s1.0 = ?s1 and index = 1 and v = 9
      and ?s2.0 = ?s2 and n = 2 and ?s3.0 = ?s2] i g s p c
  show ?thesis by (simp add: full_example_def eval_simps)
qed



text \<open>
  C8, as the claim states it, fails: on the empty buffer that the constructor makes with
  capacity 0 and the default policy, the first \<^verbatim>\<open>push\<close> throws and the length stays 0;
  on the empty buffer of capacity 2 with the halving policy the third of three pushes
  throws and the length stays 2.
\<close>

theorem push_onto_default_buffer_throws:
  "length' (DynamicArray Uint8Array (InitialCapacity 0)) = 0 \<and>
   pushes [5] (DynamicArray Uint8Array (InitialCapacity 0)) =
     (Inl grow_error, DynamicArray Uint8Array (InitialCapacity 0)) \<and>
   length' halving_example = 0 \<and>
   pushes [7, 8, 9] halving_example =
     (Inl grow_error, halving_example\<lparr>length' := 2, capacity := 1, array := [7, 8]\<rparr>)"
  by (simp add: halving_example_def eval_simps)

text \<open>
  C8, amended. On an empty buffer (its capacity at most the number of slots of its array,
  as in every buffer the methods produce), a sequence of pushes that all return gives the
  numbers 1, 2, ..., n, leaves length n, and \<^verbatim>\<open>get(i)\<close> is then the i-th pushed value
  for every \<open>i < n\<close>; and the pushes do all return when the policy strictly increases
  every capacity from the current one on.
\<close>

theorem pushes_onto_empty:
  "length' s = 0 \<Longrightarrow> capacity s \<le> List.length (array s) \<Longrightarrow>
     (pushes vs s = (Inr ns, s') \<longrightarrow>
        ns = [1 ..< List.length vs + 1] \<and> length' s' = List.length vs \<and>
        (\<forall>i<List.length vs. get i s' = Some (vs ! i))) \<and>
     ((\<forall>c\<ge>capacity s. c < policy s c) \<longrightarrow> (\<exists>ns s'. pushes vs s = (Inr ns, s')))"
proof (intro conjI impI)
  assume len: "length' s = 0" and cap: "capacity s \<le> List.length (array s)"
  from len have lc: "length' s \<le> capacity s" by simp
  {
    assume p: "pushes vs s = (Inr ns, s')"
    from pushes_Inr_weak[OF lc cap p] len
    show "ns = [1 ..< List.length vs + 1]" "length' s' = List.length vs"
      "\<forall>i<List.length vs. get i s' = Some (vs ! i)"
      by (simp_all add: get_def)
  }
  {
    assume "\<forall>c\<ge>capacity s. c < policy s c"
    from pushes_total_weak[OF lc cap this] show "\<exists>ns s'. pushes vs s = (Inr ns, s')" .
  }
qed

theorem pushes_onto_empty_witness:
  "length' fresh_example = 0 \<and> capacity fresh_example \<le> List.length (array fresh_example) \<and>
   pushes [10, 20, 30] fresh_example =
     (Inr [1, 2, 3], fresh_example\<lparr>length' := 3, capacity := 3, array := [10, 20, 30],
                                   allocations := 2\<rparr>) \<and>
   get 0 (fresh_example\<lparr>length' := 3, capacity := 3, array := [10, 20, 30],
                         allocations := 2\<rparr>) = Some 10 \<and>
   get 1 (fresh_example\<lparr>length' := 3, capacity := 3, array := [10, 20, 30],
                         allocations := 2\<rparr>) = Some 20 \<and>
   get 2 (fresh_example\<lparr>length' := 3, capacity := 3, array := [10, 20, 30],
                         allocations := 2\<rparr>) = Some 30"
proof -
  let ?s' = "fresh_example\<lparr>length' := 3, capacity := 3, array := [10, 20, 30],
                           allocations := 2\<rparr>"
  have i: "length' fresh_example = 0"
    "capacity fresh_example \<le> List.length (array fresh_example)"
    by (simp_all add: fresh_example_def eval_simps)
  have p: "pushes [10, 20, 30] fresh_example = (Inr [1, 2, 3], ?s')"
    by (simp add: fresh_example_def eval_simps)
  have m: "\<forall>c\<ge>capacity fresh_example. c < policy fresh_example c"
  proof (intro allI impI)
    fix c assume "capacity fresh_example \<le> c"
    then have "2 \<le> c" by (simp add: fresh_example_def)
    then have "c < (3 * c + 1) div 2" by arith
    then show "c < policy fresh_example c"
      by (simp add: fresh_example_def DEFAULT_GROWING_POLICY_div)
  qed
  from pushes_onto_empty[OF i, of "[10, 20, 30]" "[1, 2, 3]" ?s'] p m i
  have "\<forall>i<3. get i ?s' = Some ([10, 20, 30] ! i)" by simp
  note a = this[rule_format]
  from a[of 0] a[of 1] a[of 2]
  have "get 0 ?s' = Some 10" "get 1 ?s' = Some 20" "get 2 ?s' = Some 30"
    by simp_all
  with i p show ?thesis by simp
qed

text \<open>
  C9, as the claim states it, fails. On the erratic example after five pushes, the fifth
  of which throws (length 4, capacity 1), \<^verbatim>\<open>pop()\<close> returns 4 and \<^verbatim>\<open>push(4)\<close>
  returns 4, but the push reallocates to two slots: \<^verbatim>\<open>get(2)\<close> was 3 and is now
  \<^verbatim>\<open>undefined\<close>.
\<close>

theorem pop_then_push_loses_slots:
  "run [Push 1, Push 2, Push 3, Push 4, Push 5] erratic_example =
     Some ([None, None, None, None, Some grow_error], corrupted_example) \<and>
   length' corrupted_example = 4 \<and>
   pop corrupted_example = (Some 4, corrupted_example\<lparr>length' := 3\<rparr>) \<and>
   push 4 (corrupted_example\<lparr>length' := 3\<rparr>) =
     (Inr 4, corrupted_example\<lparr>capacity := 2, array := [1, 2], allocations := 2\<rparr>) \<and>
   get 2 corrupted_example = Some 3 \<and>
   get 2 (corrupted_example\<lparr>capacity := 2, array := [1, 2], allocations := 2\<rparr>) = None"
  using corrupted_example_reachable by (simp add: eval_simps2)

text \<open>
  C9, amended. On a buffer with a positive length that is at most the number of slots of
  its array, and for which the length is at most the capacity or the policy takes the
  capacity to a larger value that is at least the length, \<^verbatim>\<open>pop()\<close> returns a value,
  and pushing that value back returns the old length and leaves the same length and the
  same values at all indices below it. The witness is a case where the push reallocates
  and the capacity changes from 1 to 2.
\<close>

theorem pop_then_push:
  "0 < length' s \<Longrightarrow> length' s \<le> List.length (array s) \<Longrightarrow>
   length' s \<le> capacity s \<or>
     (capacity s < policy s (capacity s) \<and> length' s \<le> policy s (capacity s)) \<Longrightarrow>
     (\<exists>x s1 s2. pop s = (Some x, s1) \<and> push x s1 = (Inr (length' s), s2) \<and>
        length' s2 = length' s \<and> (\<forall>i<length' s. get i s2 = get i s))"
proof -
  assume pos: "0 < length' s" and ls: "length' s \<le> List.length (array s)"
    and c: "length' s \<le> capacity s \<or>
      (capacity s < policy s (capacity s) \<and> length' s \<le> policy s (capacity s))"
  let ?x = "array s ! (length' s - 1)"
  let ?s1 = "s\<lparr>length' := length' s - 1\<rparr>"
  from pos ls have lt: "length' s - 1 < List.length (array s)" by auto
  from pos lt have p: "pop s = (Some ?x, ?s1)"
    by (simp add: pop_def Let_def array_read_def)
  show ?thesis
  proof (cases "length' s \<le> capacity s")
    case True
    with pos have "\<not> capacity s \<le> length' s - 1" by auto
    with pos lt have "push ?x ?s1 = (Inr (length' s), s)"
      by (simp add: push_def Let_def array_write_def)
    with p show ?thesis by blast
  next
    case False
    with c have g: "capacity s < policy s (capacity s)" "length' s \<le> policy s (capacity s)"
      by simp_all
    let ?p = "policy s (capacity s)"
    let ?t = "transfer (?s1\<lparr>capacity := ?p\<rparr>)"
    let ?s2 = "?t\<lparr>array := array_write (ArrayClass ?t) (array ?t) (length' ?t) (Some ?x),
                  length' := length' ?t + 1\<rparr>"
    from False pos g have q: "push ?x ?s1 = (Inr (length' s), ?s2)"
      by (simp add: push_def grow_def Let_def)
    have "\<forall>i<length' s. get i ?s2 = get i s"
    proof (intro allI impI)
      fix i assume i: "i < length' s"
      show "get i ?s2 = get i s"
      proof (cases "i = length' s - 1")
        case True
        from pos g have a: "length' s - 1 < ?p" by auto
        from True a have r2: "array_read (array ?s2) i = Some ?x"
          by (simp add: array_read_write)
        from True lt have r1: "array_read (array s) i = Some ?x"
          by (simp add: array_read_def)
        from pos have l2: "length' ?s2 = length' s" by simp
        have "get i ?s2 = array_read (array ?s2) i"
          unfolding get_def using i l2 by (simp only: not_less_iff_gr_or_eq if_False) simp
        moreover have "get i s = array_read (array s) i"
          unfolding get_def using i by simp
        ultimately show ?thesis using r1 r2 by (simp only:)
      next
        case False
        with i have i1: "i < length' ?s1" by simp
        from i g have i2: "i < ?p" by simp
        from i ls have i3: "i < List.length (array ?s1)" by simp
        from transfer_grown_read[OF i1 i2 i3] False i pos
        show ?thesis by (simp add: get_def array_read_write)
      qed
    qed
    with p q pos show ?thesis by auto
  qed
qed

theorem pop_then_push_witness:
  "pop shrunk_example = (Some 2, shrunk_example\<lparr>length' := 1\<rparr>) \<and>
   push 2 (shrunk_example\<lparr>length' := 1\<rparr>) =
     (Inr 2, shrunk_example\<lparr>capacity := 2, array := [1, 2], allocations := 2\<rparr>) \<and>
   get 0 (shrunk_example\<lparr>capacity := 2, array := [1, 2], allocations := 2\<rparr>) =
     get 0 shrunk_example \<and>
   get 1 (shrunk_example\<lparr>capacity := 2, array := [1, 2], allocations := 2\<rparr>) =
     get 1 shrunk_example \<and>
   capacity shrunk_example = 1"
proof -
  have h: "0 < length' shrunk_example"
    "length' shrunk_example \<le> List.length (array shrunk_example)"
    "length' shrunk_example \<le> capacity shrunk_example \<or>
      (capacity shrunk_example < policy shrunk_example (capacity shrunk_example) \<and>
       length' shrunk_example \<le> policy shrunk_example (capacity shrunk_example))"
    by (simp_all add: shrunk_example_def eval_simps2)
  from pop_then_push[OF h] obtain x s1 s2 where
    "pop shrunk_example = (Some x, s1)" "push x s1 = (Inr (length' shrunk_example), s2)"
    by blast
  then show ?thesis
    by (auto simp: shrunk_example_def eval_simps2)
qed

text \<open>
  C10. For an index below the capacity, \<^verbatim>\<open>set\<close> returns without allocating: the
  capacity, the number of allocations and the number of slots are as before, every slot
  but the one at the index keeps its value, and the length is the larger of the old
  length and the index plus one.
\<close>

theorem set_below_capacity:
  "index < capacity s \<Longrightarrow>
     (\<exists>s'. set' index v s = Some (Inr (), s') \<and>
        capacity s' = capacity s \<and> allocations s' = allocations s \<and>
        List.length (array s') = List.length (array s) \<and>
        (\<forall>j. j \<noteq> index \<longrightarrow> array_read (array s') j = array_read (array s) j) \<and>
        length' s' = max (length' s) (index + 1))"
  by (auto simp: set'_def set_write_def Let_def array_read_write)

theorem set_below_capacity_witness:
  "(2::nat) < capacity (DynamicArray Uint8Array (InitialCapacity 4)) \<and>
   set' 2 9 (DynamicArray Uint8Array (InitialCapacity 4)) =
     Some (Inr (), \<lparr>ArrayClass = Uint8Array, length' = 3, capacity = 4,
                    policy = DEFAULT_GROWING_POLICY, array = [0, 0, 9, 0],
                    allocations = 1\<rparr>)"
  using set_below_capacity[of 2 "DynamicArray Uint8Array (InitialCapacity 4)" 9]
  by (simp add: set'_def set_write_def Let_def new_array_def array_write_def numeral_eq_Suc
      Uint8Array_def)

end
